theory Spec2Isabelle
  imports Complex_Main "HOL-Library.FSet" "HOL-Library.List_Lexorder" "HOL-Library.Multiset"
begin

section \<open>Data model\<close>

text \<open>
  Python values that occur as symbols of an outcome. The labels that
  \<open>add_partition\<close> appends are Python ints.
\<close>

datatype pyval = IntV int | StrV string

text \<open>
  After \<open>modify_outcomes(dist, lambda x: tuple(x))\<close> an outcome is a tuple of symbols.
  A distribution is the sequence of its outcomes with their probability masses.
\<close>

type_synonym outcome = "pyval list"
type_synonym dist = "(outcome \<times> real) list"

text \<open>
  A block is a \<open>frozenset\<close> of outcomes. A partition is a \<open>frozenset\<close> of blocks; it is
  kept as the list of its blocks in the order in which Python iterates over it
  (\<open>enumerate(part)\<close>, \<open>combinations(part, 2)\<close>). Two partitions are the same
  \<open>frozenset\<close> when their lists have the same elements.
\<close>

type_synonym block = "outcome fset"
type_synonym partition = "block list"

datatype rv = Index nat | Name string
datatype rv_mode = Indices | Names

datatype error = KeyError outcome | ditException

subsection \<open>Collaborators outside the module\<close>

text \<open>
  The measures \<open>entropy\<close> and \<open>dual_total_correlation\<close>, the comparison \<open>close\<close>, the
  normalisation \<open>normalize_rvs\<close> and the order in which a new \<open>frozenset\<close> of blocks is
  iterated are imported by the module and are parameters of the model.
\<close>

record env =
  entropy :: "dist \<Rightarrow> rv list \<Rightarrow> rv_mode option \<Rightarrow> real"
  dual_total_correlation :: "dist \<Rightarrow> rv list list \<Rightarrow> rv list \<Rightarrow> rv_mode option \<Rightarrow> real"
  close :: "real \<Rightarrow> real \<Rightarrow> bool"
  normalize_rvs :: "dist \<Rightarrow> rv list list option \<Rightarrow> rv list option \<Rightarrow> rv_mode option
                     \<Rightarrow> error + (rv list list \<times> rv list \<times> rv_mode option)"
  frozenset :: "block list \<Rightarrow> block list"

text \<open>
  A \<open>frozenset\<close> built from a list holds each element of the list once, in some order.
\<close>

definition frozenset_ok :: "env \<Rightarrow> bool" where
  "frozenset_ok E = (\<forall>xs. distinct (frozenset E xs) \<and> set (frozenset E xs) = set xs)"

text \<open>Modelled from the spec: \<open>dist.outcomes\<close>, the outcomes of a distribution.\<close>

definition outcomes :: "dist \<Rightarrow> outcome list" where
  "outcomes d = map fst d"

text \<open>Modelled from the spec: \<open>dist.outcome_length()\<close>, the number of symbols of an outcome.\<close>

definition outcome_length :: "dist \<Rightarrow> nat" where
  "outcome_length d = (case d of [] \<Rightarrow> 0 | (x, _) # _ \<Rightarrow> length x)"

text \<open>
  Modelled from the spec: \<open>modify_outcomes\<close>, a new distribution with the outcomes
  remapped through a pure function.
\<close>

definition modify_outcomes :: "dist \<Rightarrow> (outcome \<Rightarrow> outcome) \<Rightarrow> dist" where
  "modify_outcomes d ctor = map (\<lambda>(x, p). (ctor x, p)) d"

definition tuple :: "outcome \<Rightarrow> outcome" where
  "tuple x = x"

text \<open>
  Modelled from the spec: \<open>insert_rvf\<close>, a new distribution with an extra trailing
  variable computed from each outcome by \<open>func\<close>; an exception of \<open>func\<close> propagates.
\<close>

fun insert_rvf :: "dist \<Rightarrow> (outcome \<Rightarrow> error + outcome) \<Rightarrow> error + dist" where
  "insert_rvf [] func = Inr []"
| "insert_rvf ((x, p) # d) func =
     (case func x of
        Inl e \<Rightarrow> Inl e
      | Inr v \<Rightarrow> (case insert_rvf d func of
                    Inl e \<Rightarrow> Inl e
                  | Inr d' \<Rightarrow> Inr ((x @ v, p) # d')))"

section \<open>The partition-function adapter\<close>

text \<open>
  \<open>invert_part = {e: (i,) for i, es in enumerate(part) for e in es}\<close>: a later block
  overwrites the entry of an earlier one.
\<close>

definition invert_part :: "partition \<Rightarrow> (outcome \<rightharpoonup> outcome)" where
  "invert_part part =
     fold (\<lambda>(i, es) m. (\<lambda>e. if e |\<in>| es then Some [IntV (int i)] else m e))
          (enumerate 0 part) Map.empty"

definition add_partition :: "dist \<Rightarrow> partition \<Rightarrow> error + dist" where
  "add_partition d part =
     (let ip = invert_part part
      in insert_rvf d (\<lambda>j. case ip j of None \<Rightarrow> Inl (KeyError j) | Some v \<Rightarrow> Inr v))"

section \<open>The partition search\<close>

record search_state =
  queue :: "partition list"
  checked :: "block fset fset"
  optimal :: "real \<times> dist"

text \<open>\<open>itertools.combinations(part, 2)\<close>.\<close>

fun combinations2 :: "'a list \<Rightarrow> ('a \<times> 'a) list" where
  "combinations2 [] = []"
| "combinations2 (x # xs) = map (Pair x) xs @ combinations2 xs"

definition new_parts :: "env \<Rightarrow> partition \<Rightarrow> partition list" where
  "new_parts E part =
     map (\<lambda>pair. frozenset E (filter (\<lambda>p. p \<noteq> fst pair \<and> p \<noteq> snd pair) part
                                @ [fst pair |\<union>| snd pair]))
         (combinations2 part)"

text \<open>The sort key \<open>lambda p: sorted(map(len, p))\<close>; lists compare lexicographically.\<close>

definition size_key :: "partition \<Rightarrow> nat list" where
  "size_key p = sort (map fcard p)"

datatype control = Continue | Break

text \<open>
  One pass through the body of \<open>while queue\<close>, for the partition \<open>part\<close> just popped;
  \<open>st\<close> is the state after \<open>queue.popleft()\<close>.
\<close>

definition iteration ::
  "env \<Rightarrow> dist \<Rightarrow> rv list list \<Rightarrow> rv list \<Rightarrow> rv_mode option \<Rightarrow> real
     \<Rightarrow> partition \<Rightarrow> search_state \<Rightarrow> error + (control \<times> search_state)" where
  "iteration E d0 rvs crvs rv_mode optimal_b part st =
     (let W = [Index (outcome_length d0)];
          st1 = st\<lparr>checked := finsert (fset_of_list part) (checked st)\<rparr>
      in case add_partition d0 part of
           Inl e \<Rightarrow> Inl e
         | Inr d \<Rightarrow>
             if close E (dual_total_correlation E d rvs (crvs @ W) rv_mode) 0 then
               let h = entropy E d W rv_mode;
                   st2 = (if h \<le> fst (optimal st1) then st1\<lparr>optimal := (h, d)\<rparr> else st1)
               in if close E h optimal_b then Inr (Break, st2)
                  else
                    let nps = sort_key size_key
                                (filter (\<lambda>p. fset_of_list p |\<notin>| checked st2) (new_parts E part))
                    in Inr (Continue, st2\<lparr>queue := rev nps @ queue st2\<rparr>)
             else Inr (Continue, st1))"

text \<open>The loop \<open>while queue\<close>; \<open>None\<close> stands for a loop that does not return.\<close>

partial_function (option) while_queue ::
  "env \<Rightarrow> dist \<Rightarrow> rv list list \<Rightarrow> rv list \<Rightarrow> rv_mode option \<Rightarrow> real
     \<Rightarrow> search_state \<Rightarrow> (error + search_state) option" where
  "while_queue E d0 rvs crvs rv_mode optimal_b st =
     (case queue st of
        [] \<Rightarrow> Some (Inr st)
      | part # rest \<Rightarrow>
          (case iteration E d0 rvs crvs rv_mode optimal_b part (st\<lparr>queue := rest\<rparr>) of
             Inl e \<Rightarrow> Some (Inl e)
           | Inr (Break, st') \<Rightarrow> Some (Inr st')
           | Inr (Continue, st') \<Rightarrow> while_queue E d0 rvs crvs rv_mode optimal_b st'))"

declare while_queue.simps [code]

definition functional_markov_chain ::
  "env \<Rightarrow> dist \<Rightarrow> rv list list option \<Rightarrow> rv list option \<Rightarrow> rv_mode option
     \<Rightarrow> (error + dist) option" where
  "functional_markov_chain E d rvs0 crvs0 rv_mode0 =
     (case normalize_rvs E d rvs0 crvs0 rv_mode0 of
        Inl e \<Rightarrow> Some (Inl e)
      | Inr (rvs, crvs, rv_mode) \<Rightarrow>
          (let d0 = modify_outcomes d tuple;
               part = frozenset E (map (\<lambda>x. {|x|}) (outcomes d0));
               W = [Index (outcome_length d0)];
               optimal_b = dual_total_correlation E d0 rvs crvs rv_mode
           in case add_partition d0 part of
                Inl e \<Rightarrow> Some (Inl e)
              | Inr initial \<Rightarrow>
                  (case while_queue E d0 rvs crvs rv_mode optimal_b
                          \<lparr>queue = [part], checked = {||},
                           optimal = (entropy E initial W rv_mode, initial)\<rparr> of
                     None \<Rightarrow> None
                   | Some (Inl e) \<Rightarrow> Some (Inl e)
                   | Some (Inr st) \<Rightarrow> Some (Inr (snd (optimal st))))))"

definition functional_common_information ::
  "env \<Rightarrow> dist \<Rightarrow> rv list list option \<Rightarrow> rv list option \<Rightarrow> rv_mode option
     \<Rightarrow> (error + real) option" where
  "functional_common_information E d rvs crvs rv_mode =
     (case functional_markov_chain E d rvs crvs rv_mode of
        None \<Rightarrow> None
      | Some (Inl e) \<Rightarrow> Some (Inl e)
      | Some (Inr d') \<Rightarrow> Some (Inr (entropy E d' [Index (outcome_length d)] None)))"

text \<open>
  A partition of the outcomes \<open>xs\<close>: distinct, non-empty, pairwise disjoint blocks whose
  union is the set of outcomes.
\<close>

definition is_partition :: "outcome list \<Rightarrow> partition \<Rightarrow> bool" where
  "is_partition xs part =
     (distinct part
      \<and> (\<forall>b \<in> set part. b \<noteq> {||})
      \<and> (\<forall>b \<in> set part. \<forall>c \<in> set part. b \<noteq> c \<longrightarrow> b |\<inter>| c = {||})
      \<and> (\<forall>x. (\<exists>b \<in> set part. x |\<in>| b) = (x \<in> set xs)))"

section \<open>Observations of a run\<close>

text \<open>
  The partitions that the first \<open>n\<close> passes of the loop pop and evaluate, in order; the
  passes are those of \<open>while_queue\<close>.
\<close>

fun popped ::
  "env \<Rightarrow> dist \<Rightarrow> rv list list \<Rightarrow> rv list \<Rightarrow> rv_mode option \<Rightarrow> real
     \<Rightarrow> nat \<Rightarrow> search_state \<Rightarrow> partition list" where
  "popped E d0 rvs crvs rv_mode optimal_b 0 st = []"
| "popped E d0 rvs crvs rv_mode optimal_b (Suc n) st =
     (case queue st of
        [] \<Rightarrow> []
      | part # rest \<Rightarrow>
          part # (case iteration E d0 rvs crvs rv_mode optimal_b part (st\<lparr>queue := rest\<rparr>) of
                    Inr (Continue, st') \<Rightarrow> popped E d0 rvs crvs rv_mode optimal_b n st'
                  | _ \<Rightarrow> []))"

text \<open>
  The state after at most \<open>n\<close> passes of the loop, with the way the last pass left the
  body: \<open>Break\<close> for the early exit. The passes are those of \<open>while_queue\<close>.
\<close>

fun passes ::
  "env \<Rightarrow> dist \<Rightarrow> rv list list \<Rightarrow> rv list \<Rightarrow> rv_mode option \<Rightarrow> real
     \<Rightarrow> nat \<Rightarrow> search_state \<Rightarrow> error + (control \<times> search_state)" where
  "passes E d0 rvs crvs rv_mode optimal_b 0 st = Inr (Continue, st)"
| "passes E d0 rvs crvs rv_mode optimal_b (Suc n) st =
     (case queue st of
        [] \<Rightarrow> Inr (Continue, st)
      | part # rest \<Rightarrow>
          (case iteration E d0 rvs crvs rv_mode optimal_b part (st\<lparr>queue := rest\<rparr>) of
             Inl e \<Rightarrow> Inl e
           | Inr (Break, st') \<Rightarrow> Inr (Break, st')
           | Inr (Continue, st') \<Rightarrow> passes E d0 rvs crvs rv_mode optimal_b n st'))"

text \<open>
  Invariant of the search. The blocks of a queued partition are distinct, non-empty and
  pairwise disjoint, and they cover the outcomes; the queue is ordered by the number of
  blocks, holds no partition twice and none that has been popped.
\<close>

definition valid_part :: "partition \<Rightarrow> bool" where
  "valid_part p =
     (distinct p \<and> {||} \<notin> set p
      \<and> (\<forall>b \<in> set p. \<forall>c \<in> set p. b \<noteq> c \<longrightarrow> b |\<inter>| c = {||}))"

definition covers :: "dist \<Rightarrow> partition \<Rightarrow> bool" where
  "covers d0 p = (\<forall>x \<in> set (outcomes d0). \<exists>b \<in> set p. x |\<in>| b)"

definition search_inv :: "dist \<Rightarrow> search_state \<Rightarrow> bool" where
  "search_inv d0 st =
     ((\<forall>p \<in> set (queue st). valid_part p \<and> covers d0 p)
      \<and> sorted (map length (queue st))
      \<and> distinct (map fset_of_list (queue st))
      \<and> (\<forall>p \<in> set (queue st). fset_of_list p |\<notin>| checked st))"

fun weight :: "nat \<Rightarrow> nat" where
  "weight 0 = 1"
| "weight (Suc k) = Suc k * Suc k * weight k + 1"

definition queue_weight :: "search_state \<Rightarrow> nat" where
  "queue_weight st = sum_list (map (\<lambda>p. weight (length p)) (queue st))"

text \<open>The blocks of the partition built for a pair of blocks of \<open>part\<close>.\<close>

definition merged :: "partition \<Rightarrow> block \<times> block \<Rightarrow> block set" where
  "merged part pair = (set part - {fst pair, snd pair}) \<union> {fst pair |\<union>| snd pair}"

section \<open>The measures in exact arithmetic\<close>








section \<open>Example inputs\<close>

text \<open>
  Two independent fair bits. For this distribution and the targets \<open>[[0], [1]]\<close> the
  dual total correlation is 0, and so is the conditional one given the label of the
  partition \<open>P3 = {{00, 01}, {10}, {11}}\<close>, whose label has entropy 3/2 bits; given the
  label of \<open>PX = {{00, 11}, {01}, {10}}\<close> it is 1/2. \<open>E_ex\<close> stands in for the
  collaborators with these values; its \<open>close\<close> is the comparison with absolute tolerance
  \<open>10\<^sup>-\<^sup>9\<close>, and a new \<open>frozenset\<close> is iterated in the order of first insertion.
\<close>

definition d4 :: dist where
  "d4 = [([IntV 0, IntV 0], 1 / 4), ([IntV 0, IntV 1], 1 / 4),
         ([IntV 1, IntV 0], 1 / 4), ([IntV 1, IntV 1], 1 / 4)]"

definition E_ex :: env where
  "E_ex = \<lparr>entropy = (\<lambda>d rvs m. 3 / 2),
           dual_total_correlation = (\<lambda>d rvs crvs m.
              if d = [([IntV 0, IntV 0, IntV 0], 1 / 4), ([IntV 0, IntV 1, IntV 1], 1 / 4),
                      ([IntV 1, IntV 0, IntV 2], 1 / 4), ([IntV 1, IntV 1, IntV 0], 1 / 4)]
              then 1 / 2 else 0),
           close = (\<lambda>a b. \<bar>a - b\<bar> \<le> 1 / 10 ^ 9),
           normalize_rvs = (\<lambda>d rvs crvs m.
              Inr (case rvs of None \<Rightarrow> map (\<lambda>i. [Index i]) [0 ..< outcome_length d] | Some r \<Rightarrow> r,
                   case crvs of None \<Rightarrow> [] | Some c \<Rightarrow> c,
                   Some (case m of None \<Rightarrow> Indices | Some x \<Rightarrow> x))),
           frozenset = remdups\<rparr>"

definition P3 :: partition where
  "P3 = [{|[IntV 0, IntV 0], [IntV 0, IntV 1]|}, {|[IntV 1, IntV 0]|}, {|[IntV 1, IntV 1]|}]"

definition P4 :: partition where
  "P4 = [{|[IntV 0, IntV 0]|}, {|[IntV 0, IntV 1]|}, {|[IntV 1, IntV 0]|}, {|[IntV 1, IntV 1]|}]"

definition PX :: partition where
  "PX = [{|[IntV 0, IntV 0], [IntV 1, IntV 1]|}, {|[IntV 0, IntV 1]|}, {|[IntV 1, IntV 0]|}]"

definition dP3 :: dist where
  "dP3 = [([IntV 0, IntV 0, IntV 0], 1 / 4), ([IntV 0, IntV 1, IntV 0], 1 / 4),
          ([IntV 1, IntV 0, IntV 1], 1 / 4), ([IntV 1, IntV 1, IntV 2], 1 / 4)]"

definition dPX :: dist where
  "dPX = [([IntV 0, IntV 0, IntV 0], 1 / 4), ([IntV 0, IntV 1, IntV 1], 1 / 4),
          ([IntV 1, IntV 0, IntV 2], 1 / 4), ([IntV 1, IntV 1, IntV 0], 1 / 4)]"

definition st3 :: search_state where
  "st3 = \<lparr>queue = [P3, PX], checked = {|fset_of_list P4|}, optimal = (2, [])\<rparr>"

definition stX :: search_state where
  "stX = \<lparr>queue = [PX, P3], checked = {|fset_of_list P4|}, optimal = (2, [])\<rparr>"

text \<open>
  Two lists of blocks that are not partitions of the outcomes of \<open>d4\<close>: in the first,
  \<open>11\<close> is in two blocks; in the second, \<open>11\<close> is in none.
\<close>

definition part_overlap :: partition where
  "part_overlap = [{|[IntV 0, IntV 0], [IntV 0, IntV 1], [IntV 1, IntV 0], [IntV 1, IntV 1]|},
                   {|[IntV 1, IntV 1]|}]"

definition part_short :: partition where
  "part_short = [{|[IntV 0, IntV 0], [IntV 0, IntV 1]|}, {|[IntV 1, IntV 0]|}]"


section \<open>The adapter \<open>add_partition\<close>\<close>

lemma invert_part_snoc:
  "invert_part (part @ [es]) x =
     (if x |\<in>| es then Some [IntV (int (length part))] else invert_part part x)"
  by (simp add: invert_part_def enumerate_append_eq)

lemma invert_part_None:
  "(invert_part part x = None) = (\<forall>b \<in> set part. x |\<notin>| b)"
proof (induction part rule: rev_induct)
  case Nil
  show ?case by (simp add: invert_part_def)
next
  case (snoc es part)
  then show ?case by (auto simp: invert_part_snoc)
qed

lemma invert_part_Some:
  "(invert_part part x = Some v) =
     (\<exists>i < length part. v = [IntV (int i)] \<and> x |\<in>| part ! i
        \<and> (\<forall>j < length part. i < j \<longrightarrow> x |\<notin>| part ! j))"
proof (induction part rule: rev_induct)
  case Nil
  show ?case by (simp add: invert_part_def)
next
  case (snoc es part)
  show ?case
  proof (cases "x |\<in>| es")
    case True
    have "(\<exists>i < Suc (length part). v = [IntV (int i)] \<and> x |\<in>| (part @ [es]) ! i
        \<and> (\<forall>j < Suc (length part). i < j \<longrightarrow> x |\<notin>| (part @ [es]) ! j))
        = (v = [IntV (int (length part))])"
    proof
      assume "\<exists>i < Suc (length part). v = [IntV (int i)] \<and> x |\<in>| (part @ [es]) ! i
        \<and> (\<forall>j < Suc (length part). i < j \<longrightarrow> x |\<notin>| (part @ [es]) ! j)"
      then obtain i where i: "i < Suc (length part)" "v = [IntV (int i)]"
        "\<forall>j < Suc (length part). i < j \<longrightarrow> x |\<notin>| (part @ [es]) ! j" by blast
      have "\<not> i < length part"
      proof
        assume "i < length part"
        with i(3) have "x |\<notin>| (part @ [es]) ! length part" by blast
        with True show False by simp
      qed
      with i(1) have "i = length part" by simp
      with i(2) show "v = [IntV (int (length part))]" by simp
    next
      assume "v = [IntV (int (length part))]"
      with True show "\<exists>i < Suc (length part). v = [IntV (int i)] \<and> x |\<in>| (part @ [es]) ! i
        \<and> (\<forall>j < Suc (length part). i < j \<longrightarrow> x |\<notin>| (part @ [es]) ! j)"
        by (intro exI [of _ "length part"]) simp
    qed
    with True show ?thesis by (auto simp: invert_part_snoc)
  next
    case False
    have "(\<exists>i < Suc (length part). v = [IntV (int i)] \<and> x |\<in>| (part @ [es]) ! i
        \<and> (\<forall>j < Suc (length part). i < j \<longrightarrow> x |\<notin>| (part @ [es]) ! j))
        = (\<exists>i < length part. v = [IntV (int i)] \<and> x |\<in>| part ! i
        \<and> (\<forall>j < length part. i < j \<longrightarrow> x |\<notin>| part ! j))"
      using False by (auto simp: nth_append less_Suc_eq)
    with False snoc show ?thesis by (simp add: invert_part_snoc)
  qed
qed

lemma insert_rvf_ok:
  "\<forall>x \<in> set (outcomes d). func x = Inr (g x) \<Longrightarrow>
     insert_rvf d func = Inr (map (\<lambda>(x, p). (x @ g x, p)) d)"
  by (induction d) (auto simp: outcomes_def)

lemma insert_rvf_raises:
  "\<exists>x \<in> set (outcomes d). \<exists>e. func x = Inl e \<Longrightarrow>
     \<exists>x \<in> set (outcomes d). \<exists>e. func x = Inl e \<and> insert_rvf d func = Inl e"
proof (induction d)
  case Nil
  then show ?case by (simp add: outcomes_def)
next
  case (Cons a d)
  obtain x p where a: "a = (x, p)" by (cases a)
  show ?case
  proof (cases "func x")
    case (Inl e)
    then show ?thesis by (auto simp: a outcomes_def)
  next
    case (Inr v)
    with Cons.prems have "\<exists>y \<in> set (outcomes d). \<exists>e. func y = Inl e"
      by (auto simp: a outcomes_def)
    from Cons.IH [OF this] obtain y e where "y \<in> set (outcomes d)" "func y = Inl e"
      "insert_rvf d func = Inl e" by blast
    with Inr show ?thesis by (auto simp: a outcomes_def)
  qed
qed

lemma add_partition_covered:
  assumes cov: "\<forall>x \<in> set (outcomes d). \<exists>b \<in> set part. x |\<in>| b"
  shows "\<exists>lab. add_partition d part = Inr (map (\<lambda>(x, p). (x @ [IntV (int (lab x))], p)) d)
          \<and> (\<forall>x \<in> set (outcomes d). lab x < length part \<and> x |\<in>| part ! lab x
                \<and> (\<forall>j < length part. lab x < j \<longrightarrow> x |\<notin>| part ! j))"
proof -
  have "\<forall>x \<in> set (outcomes d). \<exists>i. i < length part \<and> invert_part part x = Some [IntV (int i)]
          \<and> x |\<in>| part ! i \<and> (\<forall>j < length part. i < j \<longrightarrow> x |\<notin>| part ! j)"
  proof
    fix x assume "x \<in> set (outcomes d)"
    with cov have "invert_part part x \<noteq> None" by (simp add: invert_part_None)
    then obtain v where "invert_part part x = Some v" by blast
    then show "\<exists>i. i < length part \<and> invert_part part x = Some [IntV (int i)]
          \<and> x |\<in>| part ! i \<and> (\<forall>j < length part. i < j \<longrightarrow> x |\<notin>| part ! j)"
      using invert_part_Some [of part x v] by auto
  qed
  then obtain lab where lab: "\<forall>x \<in> set (outcomes d). lab x < length part
          \<and> invert_part part x = Some [IntV (int (lab x))]
          \<and> x |\<in>| part ! lab x \<and> (\<forall>j < length part. lab x < j \<longrightarrow> x |\<notin>| part ! j)"
    using bchoice [of "set (outcomes d)" "\<lambda>x i. i < length part \<and> invert_part part x = Some [IntV (int i)]
          \<and> x |\<in>| part ! i \<and> (\<forall>j < length part. i < j \<longrightarrow> x |\<notin>| part ! j)"] by blast
  have "insert_rvf d (\<lambda>j. case invert_part part j of None \<Rightarrow> Inl (KeyError j) | Some v \<Rightarrow> Inr v)
         = Inr (map (\<lambda>(x, p). (x @ [IntV (int (lab x))], p)) d)"
    by (rule insert_rvf_ok) (simp add: lab)
  then have "add_partition d part = Inr (map (\<lambda>(x, p). (x @ [IntV (int (lab x))], p)) d)"
    by (simp add: add_partition_def)
  with lab show ?thesis by blast
qed

lemma add_partition_uncovered:
  assumes "\<exists>x \<in> set (outcomes d). \<forall>b \<in> set part. x |\<notin>| b"
  shows "\<exists>x \<in> set (outcomes d). (\<forall>b \<in> set part. x |\<notin>| b) \<and> add_partition d part = Inl (KeyError x)"
proof -
  let ?f = "\<lambda>j. case invert_part part j of None \<Rightarrow> Inl (KeyError j) | Some v \<Rightarrow> Inr v"
  from assms obtain y where y: "y \<in> set (outcomes d)" "invert_part part y = None"
    by (auto simp: invert_part_None)
  then have "?f y = Inl (KeyError y)" by simp
  with y(1) have "\<exists>x \<in> set (outcomes d). \<exists>e. ?f x = Inl e" by blast
  from insert_rvf_raises [OF this] obtain x e where x: "x \<in> set (outcomes d)" "?f x = Inl e"
    "insert_rvf d ?f = Inl e" by blast
  from x(2) have "invert_part part x = None \<and> e = KeyError x"
    by (auto split: option.splits)
  with x show ?thesis by (auto simp: add_partition_def invert_part_None)
qed

text \<open>
  Claim C7, as amended. \<open>add_partition\<close> does not validate the partition. When an
  outcome of the distribution is in no block, the lookup \<open>invert_part[j]\<close> fails with the
  \<open>KeyError\<close> of such an outcome. When every outcome is in at least one block, nothing
  is rejected: an outcome that is in several blocks gets the label of the last of them.
\<close>

theorem add_partition_does_not_validate:
  "((\<exists>x \<in> set (outcomes d). \<forall>b \<in> set part. x |\<notin>| b) \<longrightarrow>
      (\<exists>x \<in> set (outcomes d). (\<forall>b \<in> set part. x |\<notin>| b) \<and> add_partition d part = Inl (KeyError x)))
   \<and> ((\<forall>x \<in> set (outcomes d). \<exists>b \<in> set part. x |\<in>| b) \<longrightarrow>
      (\<exists>lab. add_partition d part = Inr (map (\<lambda>(x, p). (x @ [IntV (int (lab x))], p)) d)
          \<and> (\<forall>x \<in> set (outcomes d). lab x < length part \<and> x |\<in>| part ! lab x
                \<and> (\<forall>j < length part. lab x < j \<longrightarrow> x |\<notin>| part ! j))))"
  using add_partition_covered [of d part] add_partition_uncovered [of d part] by blast

theorem add_partition_does_not_validate_witness:
  "(\<exists>x \<in> set (outcomes d4). \<forall>b \<in> set part_short. x |\<notin>| b)
   \<and> (\<exists>x \<in> set (outcomes d4). (\<forall>b \<in> set part_short. x |\<notin>| b)
          \<and> add_partition d4 part_short = Inl (KeyError x))
   \<and> list_all (\<lambda>x. \<exists>b \<in> set part_overlap. x |\<in>| b) (outcomes d4)
   \<and> (\<exists>lab. add_partition d4 part_overlap = Inr (map (\<lambda>(x, p). (x @ [IntV (int (lab x))], p)) d4)
          \<and> (\<forall>x \<in> set (outcomes d4). lab x < length part_overlap \<and> x |\<in>| part_overlap ! lab x
                \<and> (\<forall>j < length part_overlap. lab x < j \<longrightarrow> x |\<notin>| part_overlap ! j)))"
proof -
  have h1: "\<exists>x \<in> set (outcomes d4). \<forall>b \<in> set part_short. x |\<notin>| b"
    by (simp add: outcomes_def d4_def part_short_def)
  have h2: "\<forall>x \<in> set (outcomes d4). \<exists>b \<in> set part_overlap. x |\<in>| b"
    by (simp add: outcomes_def d4_def part_overlap_def)
  show ?thesis
    using add_partition_does_not_validate [of d4 part_short]
      add_partition_does_not_validate [of d4 part_overlap] h1 h2
    unfolding list_all_iff by blast
qed

text \<open>
  The outcome \<open>11\<close> is in both blocks of \<open>part_overlap\<close>; the call returns a
  distribution, in which \<open>11\<close> carries the label 1 of the second block.
\<close>

theorem overlapping_partition_is_accepted:
  "\<not> is_partition (outcomes d4) part_overlap
   \<and> add_partition d4 part_overlap =
       Inr [([IntV 0, IntV 0, IntV 0], 1 / 4), ([IntV 0, IntV 1, IntV 0], 1 / 4),
            ([IntV 1, IntV 0, IntV 0], 1 / 4), ([IntV 1, IntV 1, IntV 1], 1 / 4)]"
proof -
  have "\<not> is_partition (outcomes d4) part_overlap"
    by (auto simp: is_partition_def part_overlap_def)
  moreover have "add_partition d4 part_overlap =
       Inr [([IntV 0, IntV 0, IntV 0], 1 / 4), ([IntV 0, IntV 1, IntV 0], 1 / 4),
            ([IntV 1, IntV 0, IntV 0], 1 / 4), ([IntV 1, IntV 1, IntV 1], 1 / 4)]"
    by code_simp
  ultimately show ?thesis by simp
qed

lemma add_partition_of_partition:
  assumes "is_partition (outcomes d) part"
  shows "\<exists>lab. add_partition d part = Inr (map (\<lambda>(x, p). (x @ [IntV (int (lab x))], p)) d)
          \<and> (\<forall>x \<in> set (outcomes d). lab x < length part
                \<and> (\<forall>i < length part. (lab x = i) = (x |\<in>| part ! i)))"
proof -
  from assms have cov: "\<forall>x \<in> set (outcomes d). \<exists>b \<in> set part. x |\<in>| b"
    by (simp add: is_partition_def)
  from add_partition_covered [OF cov] obtain lab where
    res: "add_partition d part = Inr (map (\<lambda>(x, p). (x @ [IntV (int (lab x))], p)) d)"
    and lab: "\<forall>x \<in> set (outcomes d). lab x < length part \<and> x |\<in>| part ! lab x" by blast
  have "\<forall>x \<in> set (outcomes d). lab x < length part
                \<and> (\<forall>i < length part. (lab x = i) = (x |\<in>| part ! i))"
  proof (intro ballI conjI allI impI)
    fix x assume "x \<in> set (outcomes d)"
    with lab show "lab x < length part" by blast
  next
    fix x i assume x: "x \<in> set (outcomes d)" and i: "i < length part"
    from lab x have l: "lab x < length part" "x |\<in>| part ! lab x" by auto
    show "(lab x = i) = (x |\<in>| part ! i)"
    proof
      assume "lab x = i" with l show "x |\<in>| part ! i" by simp
    next
      assume xi: "x |\<in>| part ! i"
      show "lab x = i"
      proof (rule ccontr)
        assume ne: "lab x \<noteq> i"
        from assms have "distinct part" by (simp add: is_partition_def)
        with ne l(1) i have "part ! lab x \<noteq> part ! i" by (simp add: nth_eq_iff_index_eq)
        moreover have "part ! lab x \<in> set part" "part ! i \<in> set part" using l(1) i by simp_all
        ultimately have "part ! lab x |\<inter>| part ! i = {||}"
          using assms by (simp add: is_partition_def)
        with l(2) xi show False by auto
      qed
    qed
  qed
  with res show ?thesis by blast
qed

text \<open>
  Claim C8. For a partition of the outcomes, \<open>add_partition\<close> returns the distribution with
  the same outcomes and masses, each outcome extended by one trailing symbol, the
  one-element label \<open>(i,)\<close>; the label of an outcome is \<open>i\<close> exactly when the outcome is in
  the \<open>i\<close>-th block, so outcomes of one block share their label and outcomes of
  different blocks have different labels.
\<close>

theorem add_partition_labels_blocks:
  assumes "is_partition (outcomes d) part"
  shows "\<exists>lab. add_partition d part = Inr (map (\<lambda>(x, p). (x @ [IntV (int (lab x))], p)) d)
          \<and> (\<forall>x \<in> set (outcomes d). lab x < length part
                \<and> (\<forall>i < length part. (lab x = i) = (x |\<in>| part ! i)))"
  by (rule add_partition_of_partition [OF assms])

theorem add_partition_labels_blocks_witness:
  "is_partition (outcomes d4) P3
   \<and> (\<exists>lab. add_partition d4 P3 = Inr (map (\<lambda>(x, p). (x @ [IntV (int (lab x))], p)) d4)
          \<and> (\<forall>x \<in> set (outcomes d4). lab x < length P3
                \<and> (\<forall>i < length P3. (lab x = i) = (x |\<in>| P3 ! i))))"
proof -
  have h: "is_partition (outcomes d4) P3"
    by (auto simp: is_partition_def outcomes_def d4_def P3_def)
  show ?thesis
    using add_partition_labels_blocks [OF h] h by blast
qed

section \<open>The early exit\<close>

text \<open>
  Claim C3. When the popped partition is feasible and the entropy of its label is close
  to \<open>optimal_b\<close>, the loop returns at once: the rest of the queue is left as it is, only
  the popped partition has been added to the visited set, and the best candidate is the
  popped one if its entropy is at most the best so far, and the previous best otherwise.
\<close>

theorem early_exit_returns_best_at_once:
  assumes "queue st = part # rest"
    and "add_partition d0 part = Inr d"
    and "close E (dual_total_correlation E d rvs (crvs @ [Index (outcome_length d0)]) rv_mode) 0"
    and "close E (entropy E d [Index (outcome_length d0)] rv_mode) optimal_b"
  shows "while_queue E d0 rvs crvs rv_mode optimal_b st =
         Some (Inr (st\<lparr>queue := rest,
                        checked := finsert (fset_of_list part) (checked st),
                        optimal := (if entropy E d [Index (outcome_length d0)] rv_mode \<le> fst (optimal st)
                                    then (entropy E d [Index (outcome_length d0)] rv_mode, d)
                                    else optimal st)\<rparr>))"
  using assms by (subst while_queue.simps) (simp add: iteration_def Let_def)

theorem early_exit_witness:
  "queue st3 = P3 # [PX]
   \<and> add_partition d4 P3 = Inr dP3
   \<and> close E_ex (dual_total_correlation E_ex dP3 [[Index 0], [Index 1]] ([] @ [Index (outcome_length d4)]) (Some Indices)) 0
   \<and> close E_ex (entropy E_ex dP3 [Index (outcome_length d4)] (Some Indices)) (3 / 2)
   \<and> while_queue E_ex d4 [[Index 0], [Index 1]] [] (Some Indices) (3 / 2) st3 =
       Some (Inr (st3\<lparr>queue := [PX], checked := finsert (fset_of_list P3) (checked st3),
                        optimal := (3 / 2, dP3)\<rparr>))"
proof -
  have h1: "queue st3 = P3 # [PX]" by (simp add: st3_def)
  have h2: "add_partition d4 P3 = Inr dP3" by code_simp
  have h3: "close E_ex (dual_total_correlation E_ex dP3 [[Index 0], [Index 1]] ([] @ [Index (outcome_length d4)]) (Some Indices)) 0"
    by code_simp
  have h4: "close E_ex (entropy E_ex dP3 [Index (outcome_length d4)] (Some Indices)) (3 / 2)"
    by code_simp
  have e: "entropy E_ex dP3 [Index (outcome_length d4)] (Some Indices) = 3 / 2"
    by (simp add: E_ex_def)
  have o: "fst (optimal st3) = 2" by (simp add: st3_def)
  show ?thesis
    using early_exit_returns_best_at_once [OF h1 h2 h3 h4] h1 h2 h3 h4
    by (simp only: e o) simp
qed

section \<open>Infeasible partitions\<close>

text \<open>
  Claim C5. A popped partition that is not feasible adds nothing to the queue: the
  iteration only records it as visited, and the loop goes on with the rest of the queue.
\<close>

theorem infeasible_is_terminal_branch:
  assumes "queue st = part # rest"
    and "add_partition d0 part = Inr d"
    and "\<not> close E (dual_total_correlation E d rvs (crvs @ [Index (outcome_length d0)]) rv_mode) 0"
  shows "iteration E d0 rvs crvs rv_mode optimal_b part (st\<lparr>queue := rest\<rparr>) =
           Inr (Continue, st\<lparr>queue := rest, checked := finsert (fset_of_list part) (checked st)\<rparr>)
         \<and> while_queue E d0 rvs crvs rv_mode optimal_b st =
           while_queue E d0 rvs crvs rv_mode optimal_b
             (st\<lparr>queue := rest, checked := finsert (fset_of_list part) (checked st)\<rparr>)"
proof -
  have it: "iteration E d0 rvs crvs rv_mode optimal_b part (st\<lparr>queue := rest\<rparr>) =
           Inr (Continue, st\<lparr>queue := rest, checked := finsert (fset_of_list part) (checked st)\<rparr>)"
    using assms(2,3) by (simp add: iteration_def Let_def)
  have "while_queue E d0 rvs crvs rv_mode optimal_b st =
           while_queue E d0 rvs crvs rv_mode optimal_b
             (st\<lparr>queue := rest, checked := finsert (fset_of_list part) (checked st)\<rparr>)"
    by (subst while_queue.simps) (simp add: assms(1) it)
  with it show ?thesis by simp
qed

theorem infeasible_witness:
  "queue stX = PX # [P3]
   \<and> add_partition d4 PX = Inr dPX
   \<and> \<not> close E_ex (dual_total_correlation E_ex dPX [[Index 0], [Index 1]] ([] @ [Index (outcome_length d4)]) (Some Indices)) 0
   \<and> iteration E_ex d4 [[Index 0], [Index 1]] [] (Some Indices) 0 PX (stX\<lparr>queue := [P3]\<rparr>) =
           Inr (Continue, stX\<lparr>queue := [P3], checked := finsert (fset_of_list PX) (checked stX)\<rparr>)
   \<and> while_queue E_ex d4 [[Index 0], [Index 1]] [] (Some Indices) 0 stX =
           while_queue E_ex d4 [[Index 0], [Index 1]] [] (Some Indices) 0
             (stX\<lparr>queue := [P3], checked := finsert (fset_of_list PX) (checked stX)\<rparr>)"
proof -
  have h1: "queue stX = PX # [P3]" by (simp add: stX_def)
  have h2: "add_partition d4 PX = Inr dPX" by code_simp
  have h3: "\<not> close E_ex (dual_total_correlation E_ex dPX [[Index 0], [Index 1]] ([] @ [Index (outcome_length d4)]) (Some Indices)) 0"
    by code_simp
  show ?thesis
    using infeasible_is_terminal_branch [OF h1 h2 h3] h1 h2 h3 by simp
qed

section \<open>The order of the successors\<close>

text \<open>
  Claim C9, as amended. When a feasible partition that does not reach \<open>optimal_b\<close> is
  expanded, its successors that are not in the visited set are put in front of the
  queue, and \<open>extendleft\<close> leaves them there in descending order of the sorted list of
  their block sizes: the successor with the greatest key is popped first.
\<close>

theorem successors_pushed_front_descending:
  assumes "add_partition d0 part = Inr d"
    and "close E (dual_total_correlation E d rvs (crvs @ [Index (outcome_length d0)]) rv_mode) 0"
    and "\<not> close E (entropy E d [Index (outcome_length d0)] rv_mode) optimal_b"
  shows "\<exists>st' front.
           iteration E d0 rvs crvs rv_mode optimal_b part st = Inr (Continue, st')
         \<and> queue st' = front @ queue st
         \<and> mset front = mset (filter (\<lambda>p. fset_of_list p |\<notin>| checked st') (new_parts E part))
         \<and> sorted (rev (map size_key front))"
proof -
  let ?h = "entropy E d [Index (outcome_length d0)] rv_mode"
  let ?st1 = "st\<lparr>checked := finsert (fset_of_list part) (checked st)\<rparr>"
  let ?st2 = "if ?h \<le> fst (optimal ?st1) then ?st1\<lparr>optimal := (?h, d)\<rparr> else ?st1"
  let ?nps = "sort_key size_key (filter (\<lambda>p. fset_of_list p |\<notin>| checked ?st2) (new_parts E part))"
  have it: "iteration E d0 rvs crvs rv_mode optimal_b part st
              = Inr (Continue, ?st2\<lparr>queue := rev ?nps @ queue ?st2\<rparr>)"
    using assms by (simp add: iteration_def Let_def)
  have q: "queue ?st2 = queue st" by simp
  have c: "checked (?st2\<lparr>queue := rev ?nps @ queue ?st2\<rparr>) = checked ?st2" by simp
  have s: "sorted (rev (map size_key (rev ?nps)))"
    by (simp add: rev_map [symmetric])
  show ?thesis
    apply (rule exI [of _ "?st2\<lparr>queue := rev ?nps @ queue ?st2\<rparr>"])
    apply (rule exI [of _ "rev ?nps"])
    using it s by (simp only: c q) simp
qed

theorem successors_pushed_front_descending_witness:
  "add_partition d4 P3 = Inr dP3
   \<and> close E_ex (dual_total_correlation E_ex dP3 [[Index 0], [Index 1]] ([] @ [Index (outcome_length d4)]) (Some Indices)) 0
   \<and> \<not> close E_ex (entropy E_ex dP3 [Index (outcome_length d4)] (Some Indices)) 0
   \<and> (\<exists>st' front.
           iteration E_ex d4 [[Index 0], [Index 1]] [] (Some Indices) 0 P3 (st3\<lparr>queue := [PX]\<rparr>)
             = Inr (Continue, st')
         \<and> queue st' = front @ queue (st3\<lparr>queue := [PX]\<rparr>)
         \<and> mset front = mset (filter (\<lambda>p. fset_of_list p |\<notin>| checked st') (new_parts E_ex P3))
         \<and> sorted (rev (map size_key front)))"
proof -
  have h2: "add_partition d4 P3 = Inr dP3" by code_simp
  have h3: "close E_ex (dual_total_correlation E_ex dP3 [[Index 0], [Index 1]] ([] @ [Index (outcome_length d4)]) (Some Indices)) 0"
    by code_simp
  have h4: "\<not> close E_ex (entropy E_ex dP3 [Index (outcome_length d4)] (Some Indices)) 0"
    by code_simp
  show ?thesis
    using successors_pushed_front_descending [OF h2 h3 h4] h2 h3 h4 by blast
qed

text \<open>
  Expanding \<open>{{00, 01}, {10}, {11}}\<close>: the balanced merge \<open>{{00, 01}, {10, 11}}\<close>, of key
  \<open>[2, 2]\<close>, is at the head of the queue, before the two merges of key \<open>[1, 3]\<close>.
\<close>

theorem balanced_merge_is_popped_first:
  "map_sum id (\<lambda>(c, s). (c, map size_key (queue s)))
          (iteration E_ex d4 [[Index 0], [Index 1]] [] (Some Indices) 0 P3 (st3\<lparr>queue := []\<rparr>))
       = Inr (Continue, [[2, 2], [1, 3], [1, 3]])"
  by code_simp

section \<open>The functional common information\<close>

text \<open>
  Claim C10. \<open>functional_common_information\<close> returns the entropy, under the default
  \<open>rv_mode\<close> (\<open>None\<close>), of the variable at index \<open>dist.outcome_length()\<close> of the
  distribution that \<open>functional_markov_chain\<close> returns; the caller's \<open>rv_mode\<close> goes to the
  search only.
\<close>

theorem fci_is_entropy_of_last_variable:
  "functional_common_information E d rvs crvs rv_mode =
     map_option (map_sum id (\<lambda>d'. entropy E d' [Index (outcome_length d)] None))
                (functional_markov_chain E d rvs crvs rv_mode)"
  by (simp add: functional_common_information_def split: option.splits sum.splits)


section \<open>The invariant of the search\<close>

lemma combinations2_mem:
  "(a, b) \<in> set (combinations2 xs) \<Longrightarrow> a \<in> set xs \<and> b \<in> set xs"
  by (induction xs) auto

lemma combinations2_neq:
  "distinct xs \<Longrightarrow> (a, b) \<in> set (combinations2 xs) \<Longrightarrow> a \<noteq> b"
  by (induction xs) (auto dest: combinations2_mem)

lemma combinations2_asym:
  "distinct xs \<Longrightarrow> (a, b) \<in> set (combinations2 xs) \<Longrightarrow> (b, a) \<notin> set (combinations2 xs)"
  by (induction xs) (auto dest: combinations2_mem)

lemma distinct_combinations2:
  "distinct xs \<Longrightarrow> distinct (combinations2 xs)"
  by (induction xs) (auto simp: distinct_map inj_on_def dest: combinations2_mem)

lemma length_combinations2:
  "length (combinations2 xs) \<le> length xs * length xs"
  by (induction xs) auto

lemma union_not_block:
  assumes "valid_part part" "a \<in> set part" "b \<in> set part" "a \<noteq> b"
  shows "a |\<union>| b \<notin> set part"
proof
  assume m: "a |\<union>| b \<in> set part"
  from assms have ne: "a \<noteq> {||}" "b \<noteq> {||}" by (auto simp: valid_part_def)
  have "a |\<union>| b = a"
  proof (rule ccontr)
    assume "a |\<union>| b \<noteq> a"
    with assms(1,2) m have "(a |\<union>| b) |\<inter>| a = {||}" by (simp add: valid_part_def)
    moreover have "(a |\<union>| b) |\<inter>| a = a" by (simp add: inf_commute inf_sup_absorb)
    ultimately show False using ne by simp
  qed
  moreover have "a |\<union>| b = b"
  proof (rule ccontr)
    assume "a |\<union>| b \<noteq> b"
    with assms(1,3) m have "(a |\<union>| b) |\<inter>| b = {||}" by (simp add: valid_part_def)
    moreover have "(a |\<union>| b) |\<inter>| b = b" by (metis inf_commute sup_commute inf_sup_absorb)
    ultimately show False using ne by simp
  qed
  ultimately show False using assms(4) by simp
qed

lemma merged_inj:
  assumes v: "valid_part part"
    and ab: "a \<in> set part" "b \<in> set part" "a \<noteq> b"
    and cd: "c \<in> set part" "d \<in> set part" "c \<noteq> d"
    and eq: "merged part (a, b) = merged part (c, d)"
  shows "{a, b} = {c, d}"
proof -
  have "a |\<union>| b \<in> merged part (a, b)" by (simp add: merged_def)
  with eq have "a |\<union>| b \<in> merged part (c, d)" by simp
  moreover have "a |\<union>| b \<notin> set part" by (rule union_not_block [OF v ab])
  ultimately have u: "a |\<union>| b = c |\<union>| d" by (simp add: merged_def)
  from v ab cd have ne: "a \<noteq> {||}" "b \<noteq> {||}" "c \<noteq> {||}" "d \<noteq> {||}"
    by (auto simp: valid_part_def)
  have dis: "\<And>x y. x \<in> set part \<Longrightarrow> y \<in> set part \<Longrightarrow> x \<noteq> y \<Longrightarrow> x |\<inter>| y = {||}"
    using v by (simp add: valid_part_def)
  have a: "a = c \<or> a = d"
  proof (rule ccontr)
    assume "\<not> (a = c \<or> a = d)"
    then have "a |\<inter>| c = {||}" "a |\<inter>| d = {||}" using dis ab cd by auto
    then have "a |\<inter>| (c |\<union>| d) = {||}" by (simp add: inf_sup_distrib1)
    with u have "a |\<inter>| (a |\<union>| b) = {||}" by simp
    with ne show False by (simp add: inf_sup_absorb)
  qed
  have b: "b = c \<or> b = d"
  proof (rule ccontr)
    assume "\<not> (b = c \<or> b = d)"
    then have "b |\<inter>| c = {||}" "b |\<inter>| d = {||}" using dis ab cd by auto
    then have "b |\<inter>| (c |\<union>| d) = {||}" by (simp add: inf_sup_distrib1)
    with u have "b |\<inter>| (b |\<union>| a) = {||}" by (simp add: sup_commute)
    with ne show False by (simp add: inf_sup_absorb)
  qed
  from a b ab(3) cd(3) show ?thesis by blast
qed

lemma fset_of_list_eq_iff: "(fset_of_list p = fset_of_list q) = (set p = set q)"
proof
  assume "fset_of_list p = fset_of_list q"
  then have "fset (fset_of_list p) = fset (fset_of_list q)" by simp
  then show "set p = set q" by (simp add: fset_of_list.rep_eq)
next
  assume "set p = set q"
  then have "fset (fset_of_list p) = fset (fset_of_list q)" by (simp add: fset_of_list.rep_eq)
  then show "fset_of_list p = fset_of_list q" by (simp only: fset_inject)
qed

lemma new_parts_elem:
  assumes ok: "frozenset_ok E" and np: "np \<in> set (new_parts E part)"
  shows "\<exists>a b. (a, b) \<in> set (combinations2 part) \<and> set np = merged part (a, b) \<and> distinct np"
proof -
  from np obtain pair where pair: "pair \<in> set (combinations2 part)"
    and eq: "np = frozenset E (filter (\<lambda>p. p \<noteq> fst pair \<and> p \<noteq> snd pair) part
                                @ [fst pair |\<union>| snd pair])"
    by (auto simp: new_parts_def)
  from ok have "set np = set (filter (\<lambda>p. p \<noteq> fst pair \<and> p \<noteq> snd pair) part
                                @ [fst pair |\<union>| snd pair])" and "distinct np"
    unfolding eq frozenset_ok_def by blast+
  moreover have "set (filter (\<lambda>p. p \<noteq> fst pair \<and> p \<noteq> snd pair) part
                                @ [fst pair |\<union>| snd pair]) = merged part pair"
    by (auto simp: merged_def)
  ultimately show ?thesis using pair by (cases pair) auto
qed

lemma merged_valid:
  assumes v: "valid_part part" and ab: "a \<in> set part" "b \<in> set part" "a \<noteq> b"
    and s: "set np = merged part (a, b)" and d: "distinct np"
  shows "valid_part np" and "Suc (length np) = length part"
proof -
  have nb: "a |\<union>| b \<notin> set part" by (rule union_not_block [OF v ab])
  from v ab have ne: "a \<noteq> {||}" by (auto simp: valid_part_def)
  have dis: "\<And>x y. x \<in> set part \<Longrightarrow> y \<in> set part \<Longrightarrow> x \<noteq> y \<Longrightarrow> x |\<inter>| y = {||}"
    using v by (simp add: valid_part_def)
  have s': "set np = insert (a |\<union>| b) (set part - {a, b})"
    using s by (simp add: merged_def)
  have nonempty: "{||} \<notin> set np"
    using v ne by (auto simp: s' valid_part_def)
  have disj: "\<forall>x \<in> set np. \<forall>y \<in> set np. x \<noteq> y \<longrightarrow> x |\<inter>| y = {||}"
  proof (intro ballI impI)
    fix x y assume x: "x \<in> set np" and y: "y \<in> set np" and xy: "x \<noteq> y"
    have m: "\<And>z. z \<in> set part \<Longrightarrow> z \<noteq> a \<Longrightarrow> z \<noteq> b \<Longrightarrow> z |\<inter>| (a |\<union>| b) = {||}"
      using dis ab by (simp add: inf_sup_distrib1)
    from x y xy show "x |\<inter>| y = {||}"
      unfolding s' using m dis by (auto simp: inf_commute)
  qed
  from d nonempty disj show "valid_part np" by (simp add: valid_part_def)
  have "card (set np) = Suc (card (set part - {a, b}))"
    unfolding s' using nb by simp
  moreover have "card (set part - {a, b}) = card (set part) - 2"
    using ab by simp
  moreover have "2 \<le> card (set part)"
  proof -
    have "card {a, b} \<le> card (set part)" using ab by (intro card_mono) auto
    with ab(3) show ?thesis by simp
  qed
  moreover from v have "card (set part) = length part"
    by (simp add: valid_part_def distinct_card)
  moreover from d have "card (set np) = length np" by (simp add: distinct_card)
  ultimately show "Suc (length np) = length part" by simp
qed

lemma merged_covers:
  assumes "covers d0 part" and s: "set np = merged part (a, b)"
  shows "covers d0 np"
  unfolding covers_def
proof
  fix x assume "x \<in> set (outcomes d0)"
  with assms(1) obtain c where c: "c \<in> set part" "x |\<in>| c" by (auto simp: covers_def)
  show "\<exists>b \<in> set np. x |\<in>| b"
  proof (cases "c = a \<or> c = b")
    case True
    with c have "x |\<in>| a |\<union>| b" by auto
    moreover have "a |\<union>| b \<in> set np" using s by (simp add: merged_def)
    ultimately show ?thesis by blast
  next
    case False
    with c have "c \<in> set np" using s by (simp add: merged_def)
    with c show ?thesis by blast
  qed
qed

lemma new_parts_props:
  assumes ok: "frozenset_ok E" and v: "valid_part part" and np: "np \<in> set (new_parts E part)"
  shows "valid_part np" and "Suc (length np) = length part"
    and "covers d0 part \<Longrightarrow> covers d0 np"
proof -
  from new_parts_elem [OF ok np] obtain a b where
    ab: "(a, b) \<in> set (combinations2 part)" "set np = merged part (a, b)" "distinct np" by blast
  from v have dp: "distinct part" by (simp add: valid_part_def)
  from combinations2_mem [OF ab(1)] combinations2_neq [OF dp ab(1)]
  have m: "a \<in> set part" "b \<in> set part" "a \<noteq> b" by simp_all
  show "valid_part np" by (rule merged_valid(1) [OF v m ab(2,3)])
  show "Suc (length np) = length part" by (rule merged_valid(2) [OF v m ab(2,3)])
  show "covers d0 part \<Longrightarrow> covers d0 np" by (rule merged_covers [OF _ ab(2)])
qed

lemma new_parts_distinct:
  assumes ok: "frozenset_ok E" and v: "valid_part part"
  shows "distinct (map fset_of_list (new_parts E part))"
proof -
  let ?F = "\<lambda>pair. frozenset E (filter (\<lambda>p. p \<noteq> fst pair \<and> p \<noteq> snd pair) part
                                @ [fst pair |\<union>| snd pair])"
  from v have dp: "distinct part" by (simp add: valid_part_def)
  have setF: "\<And>pair. set (?F pair) = merged part pair"
    using ok unfolding frozenset_ok_def by (auto simp: merged_def)
  have "inj_on (\<lambda>pair. fset_of_list (?F pair)) (set (combinations2 part))"
  proof (rule inj_onI)
    fix p q assume p: "p \<in> set (combinations2 part)" and q: "q \<in> set (combinations2 part)"
      and e: "fset_of_list (?F p) = fset_of_list (?F q)"
    obtain a b where pab: "p = (a, b)" by (cases p)
    obtain c d where qcd: "q = (c, d)" by (cases q)
    from e have "merged part p = merged part q"
      by (simp only: fset_of_list_eq_iff setF)
    then have me: "merged part (a, b) = merged part (c, d)" by (simp add: pab qcd)
    from p pab have p': "(a, b) \<in> set (combinations2 part)" by simp
    from q qcd have q': "(c, d) \<in> set (combinations2 part)" by simp
    from combinations2_mem [OF p'] combinations2_neq [OF dp p']
    have ab: "a \<in> set part" "b \<in> set part" "a \<noteq> b" by simp_all
    from combinations2_mem [OF q'] combinations2_neq [OF dp q']
    have cd: "c \<in> set part" "d \<in> set part" "c \<noteq> d" by simp_all
    from merged_inj [OF v ab cd me] have "{a, b} = {c, d}" .
    then have "(a = c \<and> b = d) \<or> (a = d \<and> b = c)" by (auto simp: doubleton_eq_iff)
    moreover have "\<not> (a = d \<and> b = c)"
      using combinations2_asym [OF dp p'] q' by auto
    ultimately show "p = q" by (simp add: pab qcd)
  qed
  with distinct_combinations2 [OF dp]
  have "distinct (map (\<lambda>pair. fset_of_list (?F pair)) (combinations2 part))"
    by (simp add: distinct_map)
  then show ?thesis by (simp add: new_parts_def comp_def)
qed

lemma weight_pos: "0 < weight k"
  by (cases k) simp_all

lemma iteration_result:
  assumes "iteration E d0 rvs crvs rv_mode optimal_b part st = Inr (c, st')"
  shows "checked st' = finsert (fset_of_list part) (checked st)"
    and "c = Continue \<Longrightarrow>
           queue st' = queue st
           \<or> queue st' = rev (sort_key size_key
                 (filter (\<lambda>p. fset_of_list p |\<notin>| finsert (fset_of_list part) (checked st))
                         (new_parts E part))) @ queue st"
  using assms by (auto simp: iteration_def Let_def split: sum.splits if_splits)

lemma sorted_map_const: "\<forall>x \<in> set xs. f x = (c::nat) \<Longrightarrow> sorted (map f xs)"
  by (induction xs) auto

lemma sum_list_map_const: "\<forall>x \<in> set xs. f x = (c::nat) \<Longrightarrow> sum_list (map f xs) = length xs * c"
  by (induction xs) auto

lemma valid_card: "valid_part p \<Longrightarrow> card (set p) = length p"
  by (simp add: valid_part_def distinct_card)

lemma inv_pop:
  assumes inv: "search_inv d0 st" and q: "queue st = part # rest"
  shows "search_inv d0 (st\<lparr>queue := rest, checked := finsert (fset_of_list part) (checked st)\<rparr>)"
  using assms by (auto simp: search_inv_def)

lemma inv_push:
  assumes ok: "frozenset_ok E" and inv: "search_inv d0 st" and q: "queue st = part # rest"
    and nps: "nps = rev (sort_key size_key
                 (filter (\<lambda>p. fset_of_list p |\<notin>| finsert (fset_of_list part) (checked st))
                         (new_parts E part)))"
    and q': "queue st' = nps @ rest"
    and c': "checked st' = finsert (fset_of_list part) (checked st)"
  shows "search_inv d0 st'" and "queue_weight st' < queue_weight st"
proof -
  let ?g = "fset_of_list :: partition \<Rightarrow> block fset"
  let ?P = "\<lambda>p. ?g p |\<notin>| finsert (?g part) (checked st)"
  from inv q have vp: "valid_part part" and cp: "covers d0 part"
    by (simp_all add: search_inv_def)
  have sub: "set nps = {p \<in> set (new_parts E part). ?P p}"
    by (simp add: nps)
  have props: "\<And>p. p \<in> set nps \<Longrightarrow> valid_part p \<and> covers d0 p \<and> Suc (length p) = length part"
    using new_parts_props [OF ok vp] cp sub by blast
  have len: "\<forall>p \<in> set nps. length p = length part - 1"
    using props by fastforce
  from inv q have rest_inv: "\<forall>p \<in> set rest. valid_part p \<and> covers d0 p"
    and rest_sorted: "sorted (map length rest)"
    and rest_ge: "\<forall>p \<in> set rest. length part \<le> length p"
    and rest_dist: "distinct (map ?g rest)"
    and rest_new: "\<forall>p \<in> set rest. ?g p \<noteq> ?g part"
    and rest_unchecked: "\<forall>p \<in> set rest. ?g p |\<notin>| checked st"
    by (auto simp: search_inv_def)
  have i1: "\<forall>p \<in> set (nps @ rest). valid_part p \<and> covers d0 p"
    using props rest_inv by auto
  have i2: "sorted (map length (nps @ rest))"
  proof -
    have "sorted (map length nps)" by (rule sorted_map_const [OF len])
    moreover have "\<forall>x \<in> set nps. \<forall>y \<in> set rest. length x \<le> length y"
      using len rest_ge by fastforce
    ultimately show ?thesis using rest_sorted by (simp add: sorted_append)
  qed
  have i3: "distinct (map ?g (nps @ rest))"
  proof -
    have "distinct (map ?g (filter ?P (new_parts E part)))"
      by (rule distinct_map_filter [OF new_parts_distinct [OF ok vp]])
    then have "distinct (filter ?P (new_parts E part))"
      and "inj_on ?g (set (filter ?P (new_parts E part)))"
      by (simp_all add: distinct_map)
    then have "distinct nps" and "inj_on ?g (set nps)" by (simp_all add: nps)
    then have d1: "distinct (map ?g nps)" by (simp add: distinct_map)
    have d2: "?g ` set nps \<inter> ?g ` set rest = {}"
    proof (rule ccontr)
      assume "?g ` set nps \<inter> ?g ` set rest \<noteq> {}"
      then obtain p r where p: "p \<in> set nps" and r: "r \<in> set rest" and e: "?g p = ?g r"
        by auto
      from e have "set p = set r" by (simp add: fset_of_list_eq_iff)
      then have "card (set p) = card (set r)" by simp
      with props [OF p] rest_inv r have "length p = length r" by (simp add: valid_card)
      with props [OF p] rest_ge r show False by fastforce
    qed
    from d1 d2 rest_dist show ?thesis by simp
  qed
  have i4: "\<forall>p \<in> set (nps @ rest). ?g p |\<notin>| checked st'"
    using sub rest_new rest_unchecked by (auto simp: c')
  from i1 i2 i3 i4 show "search_inv d0 st'" by (simp add: search_inv_def q')
  have "sum_list (map (\<lambda>p. weight (length p)) nps) = length nps * weight (length part - 1)"
    by (rule sum_list_map_const) (simp add: len)
  moreover have "length nps \<le> length part * length part"
  proof -
    have "length nps \<le> length (new_parts E part)" by (simp add: nps)
    also have "\<dots> = length (combinations2 part)" by (simp add: new_parts_def)
    also have "\<dots> \<le> length part * length part" by (rule length_combinations2)
    finally show ?thesis .
  qed
  moreover have "length part * length part * weight (length part - 1) < weight (length part)
                 \<or> nps = []"
  proof (cases "length part")
    case 0
    then have "part = []" by simp
    then show ?thesis by (simp add: nps new_parts_def)
  next
    case (Suc k)
    then show ?thesis by simp
  qed
  ultimately have "sum_list (map (\<lambda>p. weight (length p)) nps) < weight (length part)"
  proof -
    assume a: "sum_list (map (\<lambda>p. weight (length p)) nps) = length nps * weight (length part - 1)"
      and b: "length nps \<le> length part * length part"
      and c: "length part * length part * weight (length part - 1) < weight (length part) \<or> nps = []"
    show ?thesis
    proof (cases "nps = []")
      case True
      then show ?thesis by (simp add: weight_pos)
    next
      case False
      with c have "length part * length part * weight (length part - 1) < weight (length part)"
        by simp
      moreover from b have "length nps * weight (length part - 1)
          \<le> length part * length part * weight (length part - 1)"
        by (rule mult_le_mono1)
      ultimately have "length nps * weight (length part - 1) < weight (length part)"
        by (rule le_less_trans [rotated])
      then show ?thesis by (simp only: a)
    qed
  qed
  then show "queue_weight st' < queue_weight st"
    by (simp add: queue_weight_def q q')
qed

lemma search_inv_cong:
  "queue a = queue b \<Longrightarrow> checked a = checked b \<Longrightarrow> search_inv d0 a = search_inv d0 b"
  by (simp add: search_inv_def)

lemma iteration_step:
  assumes ok: "frozenset_ok E" and inv: "search_inv d0 st" and q: "queue st = part # rest"
    and it: "iteration E d0 rvs crvs rv_mode optimal_b part (st\<lparr>queue := rest\<rparr>) = Inr (Continue, st')"
  shows "search_inv d0 st'" and "queue_weight st' < queue_weight st"
    and "checked st' = finsert (fset_of_list part) (checked st)"
proof -
  from iteration_result(1) [OF it]
  show c: "checked st' = finsert (fset_of_list part) (checked st)" by simp
  from iteration_result(2) [OF it]
  consider (pop) "queue st' = rest"
    | (push) "queue st' = rev (sort_key size_key
                 (filter (\<lambda>p. fset_of_list p |\<notin>| finsert (fset_of_list part) (checked st))
                         (new_parts E part))) @ rest"
    by auto
  then have "search_inv d0 st' \<and> queue_weight st' < queue_weight st"
  proof cases
    case pop
    have "search_inv d0 st' =
          search_inv d0 (st\<lparr>queue := rest, checked := finsert (fset_of_list part) (checked st)\<rparr>)"
      by (rule search_inv_cong) (simp_all add: pop c)
    with inv_pop [OF inv q] have "search_inv d0 st'" by simp
    moreover have "queue_weight st' < queue_weight st"
      by (simp add: queue_weight_def pop q weight_pos)
    ultimately show ?thesis by simp
  next
    case push
    from inv_push [OF ok inv q refl push c] show ?thesis by simp
  qed
  then show "search_inv d0 st'" and "queue_weight st' < queue_weight st" by simp_all
qed

lemma finest_inv:
  assumes ok: "frozenset_ok E"
  shows "search_inv d0 \<lparr>queue = [frozenset E (map (\<lambda>x. {|x|}) (outcomes d0))],
                         checked = {||}, optimal = opt\<rparr>"
proof -
  let ?p = "frozenset E (map (\<lambda>x. {|x|}) (outcomes d0))"
  from ok have s: "set ?p = (\<lambda>x. {|x|}) ` set (outcomes d0)"
    and d: "distinct ?p"
    unfolding frozenset_ok_def by auto
  have "valid_part ?p"
    unfolding valid_part_def using d by (auto simp: s)
  moreover have "covers d0 ?p"
    unfolding covers_def by (auto simp: s)
  ultimately show ?thesis by (simp add: search_inv_def)
qed

lemma popped_distinct:
  assumes ok: "frozenset_ok E"
  shows "search_inv d0 st \<Longrightarrow>
         distinct (map fset_of_list (popped E d0 rvs crvs rv_mode optimal_b n st))
         \<and> (\<forall>p \<in> set (popped E d0 rvs crvs rv_mode optimal_b n st). fset_of_list p |\<notin>| checked st)"
proof (induction n arbitrary: st)
  case 0
  show ?case by simp
next
  case (Suc n)
  show ?case
  proof (cases "queue st")
    case Nil
    then show ?thesis by simp
  next
    case (Cons part rest)
    from Suc.prems Cons have fresh: "fset_of_list part |\<notin>| checked st"
      by (simp add: search_inv_def)
    show ?thesis
    proof (cases "\<exists>st'. iteration E d0 rvs crvs rv_mode optimal_b part (st\<lparr>queue := rest\<rparr>)
                          = Inr (Continue, st')")
      case True
      then obtain st' where it: "iteration E d0 rvs crvs rv_mode optimal_b part (st\<lparr>queue := rest\<rparr>)
                          = Inr (Continue, st')" by blast
      from iteration_step [OF ok Suc.prems Cons it]
      have inv': "search_inv d0 st'"
        and c: "checked st' = finsert (fset_of_list part) (checked st)" by simp_all
      from Suc.IH [OF inv'] c
      have "distinct (map fset_of_list (popped E d0 rvs crvs rv_mode optimal_b n st'))"
        and "\<forall>p \<in> set (popped E d0 rvs crvs rv_mode optimal_b n st').
               fset_of_list p \<noteq> fset_of_list part \<and> fset_of_list p |\<notin>| checked st"
        by auto
      moreover have "popped E d0 rvs crvs rv_mode optimal_b (Suc n) st
                     = part # popped E d0 rvs crvs rv_mode optimal_b n st'"
        by (simp add: Cons it)
      ultimately show ?thesis using fresh by auto
    next
      case False
      then have "popped E d0 rvs crvs rv_mode optimal_b (Suc n) st = [part]"
        by (auto simp: Cons split: sum.splits control.splits)
      with fresh show ?thesis by simp
    qed
  qed
qed

lemma iteration_total:
  assumes "add_partition d0 part = Inr d"
  shows "\<exists>c st'. iteration E d0 rvs crvs rv_mode optimal_b part st = Inr (c, st')"
  using assms by (simp add: iteration_def Let_def)

lemma modify_outcomes_tuple: "modify_outcomes d tuple = d"
  by (induction d) (auto simp: modify_outcomes_def tuple_def)

lemma iteration_optimal:
  assumes "iteration E d0 rvs crvs rv_mode optimal_b part st = Inr (c, st')"
  shows "\<exists>dp. add_partition d0 part = Inr dp
           \<and> optimal st' =
               (if close E (dual_total_correlation E dp rvs (crvs @ [Index (outcome_length d0)]) rv_mode) 0
                   \<and> entropy E dp [Index (outcome_length d0)] rv_mode \<le> fst (optimal st)
                then (entropy E dp [Index (outcome_length d0)] rv_mode, dp)
                else optimal st)"
proof (cases "add_partition d0 part")
  case (Inl e)
  with assms show ?thesis by (simp add: iteration_def Let_def)
next
  case (Inr dp)
  let ?feas = "close E (dual_total_correlation E dp rvs (crvs @ [Index (outcome_length d0)]) rv_mode) 0"
  let ?h = "entropy E dp [Index (outcome_length d0)] rv_mode"
  show ?thesis
  proof (cases ?feas)
    case False
    with assms Inr have "optimal st' = optimal st"
      by (auto simp: iteration_def Let_def)
    with Inr False show ?thesis by simp
  next
    case True
    show ?thesis
    proof (cases "?h \<le> fst (optimal st)")
      case le: True
      with assms Inr True have "optimal st' = (?h, dp)"
        by (cases "close E ?h optimal_b") (auto simp: iteration_def Let_def)
      with Inr True le show ?thesis by simp
    next
      case gt: False
      with assms Inr True have "optimal st' = optimal st"
        by (cases "close E ?h optimal_b") (auto simp: iteration_def Let_def)
      with Inr True gt show ?thesis by simp
    qed
  qed
qed

lemma while_queue_passes:
  assumes ok: "frozenset_ok E"
  shows "search_inv d0 st \<Longrightarrow>
         \<exists>n c st'. passes E d0 rvs crvs rv_mode optimal_b n st = Inr (c, st')
                  \<and> (c = Break \<or> queue st' = [])
                  \<and> while_queue E d0 rvs crvs rv_mode optimal_b st = Some (Inr st')"
proof (induction st rule: measure_induct_rule [of queue_weight])
  case (less st)
  show ?case
  proof (cases "queue st")
    case Nil
    have "passes E d0 rvs crvs rv_mode optimal_b 0 st = Inr (Continue, st)" by simp
    moreover have "while_queue E d0 rvs crvs rv_mode optimal_b st = Some (Inr st)"
      using Nil by (subst while_queue.simps) simp
    ultimately show ?thesis using Nil by blast
  next
    case (Cons part rest)
    from less.prems Cons have "covers d0 part" by (simp add: search_inv_def)
    then have "\<forall>x \<in> set (outcomes d0). \<exists>b \<in> set part. x |\<in>| b" by (simp add: covers_def)
    from add_partition_covered [OF this] obtain dp where "add_partition d0 part = Inr dp" by blast
    from iteration_total [OF this] obtain c st' where
      it: "iteration E d0 rvs crvs rv_mode optimal_b part (st\<lparr>queue := rest\<rparr>) = Inr (c, st')"
      by blast
    show ?thesis
    proof (cases c)
      case Break
      with it Cons have "passes E d0 rvs crvs rv_mode optimal_b (Suc 0) st = Inr (Break, st')"
        by simp
      moreover from Break it Cons
      have "while_queue E d0 rvs crvs rv_mode optimal_b st = Some (Inr st')"
        by (subst while_queue.simps) simp
      ultimately show ?thesis by blast
    next
      case Continue
      with it have it': "iteration E d0 rvs crvs rv_mode optimal_b part (st\<lparr>queue := rest\<rparr>)
                           = Inr (Continue, st')" by simp
      from iteration_step [OF ok less.prems Cons it']
      have "search_inv d0 st'" and "queue_weight st' < queue_weight st" by simp_all
      from less.IH [OF this(2) this(1)] obtain n c' st'' where
        p: "passes E d0 rvs crvs rv_mode optimal_b n st' = Inr (c', st'')"
        and e: "c' = Break \<or> queue st'' = []"
        and w: "while_queue E d0 rvs crvs rv_mode optimal_b st' = Some (Inr st'')" by blast
      have "passes E d0 rvs crvs rv_mode optimal_b (Suc n) st = Inr (c', st'')"
        by (simp add: Cons it' p)
      moreover have "while_queue E d0 rvs crvs rv_mode optimal_b st = Some (Inr st'')"
        by (subst while_queue.simps) (simp add: Cons it' w)
      ultimately show ?thesis using e by blast
    qed
  qed
qed

lemma passes_best:
  "passes E d0 rvs crvs rv_mode optimal_b n st = Inr (c, st') \<Longrightarrow>
     fst (optimal st') \<le> fst (optimal st)
     \<and> (\<forall>p \<in> set (popped E d0 rvs crvs rv_mode optimal_b n st). \<forall>dp.
           add_partition d0 p = Inr dp \<longrightarrow>
           close E (dual_total_correlation E dp rvs (crvs @ [Index (outcome_length d0)]) rv_mode) 0 \<longrightarrow>
           fst (optimal st') \<le> entropy E dp [Index (outcome_length d0)] rv_mode)
     \<and> (optimal st' = optimal st
         \<or> (\<exists>p \<in> set (popped E d0 rvs crvs rv_mode optimal_b n st). \<exists>dp.
               add_partition d0 p = Inr dp
             \<and> close E (dual_total_correlation E dp rvs (crvs @ [Index (outcome_length d0)]) rv_mode) 0
             \<and> optimal st' = (entropy E dp [Index (outcome_length d0)] rv_mode, dp)))"
proof (induction n arbitrary: st)
  case 0
  then show ?case by simp
next
  case (Suc n)
  let ?feas = "\<lambda>dp. close E (dual_total_correlation E dp rvs (crvs @ [Index (outcome_length d0)]) rv_mode) 0"
  let ?H = "\<lambda>dp. entropy E dp [Index (outcome_length d0)] rv_mode"
  show ?case
  proof (cases "queue st")
    case Nil
    with Suc.prems show ?thesis by simp
  next
    case (Cons part rest)
    from Suc.prems Cons obtain c1 st1 where
      it: "iteration E d0 rvs crvs rv_mode optimal_b part (st\<lparr>queue := rest\<rparr>) = Inr (c1, st1)"
      by (auto split: sum.splits)
    from iteration_optimal [OF it] obtain dq where
      dq: "add_partition d0 part = Inr dq"
      and o1: "optimal st1 = (if ?feas dq \<and> ?H dq \<le> fst (optimal st) then (?H dq, dq) else optimal st)"
      by auto
    have le1: "fst (optimal st1) \<le> fst (optimal st)" using o1 by simp
    have part1: "?feas dq \<longrightarrow> fst (optimal st1) \<le> ?H dq" using o1 by auto
    have src1: "optimal st1 = optimal st \<or> (?feas dq \<and> optimal st1 = (?H dq, dq))"
      using o1 by auto
    show ?thesis
    proof (cases c1)
      case Break
      with it Cons Suc.prems have st': "st' = st1" by simp
      have pop: "popped E d0 rvs crvs rv_mode optimal_b (Suc n) st = [part]"
        using it Cons Break by simp
      show ?thesis
        unfolding pop st' using le1 part1 src1 dq by auto
    next
      case Continue
      with it Cons Suc.prems have p: "passes E d0 rvs crvs rv_mode optimal_b n st1 = Inr (c, st')"
        by simp
      have pop: "popped E d0 rvs crvs rv_mode optimal_b (Suc n) st
                   = part # popped E d0 rvs crvs rv_mode optimal_b n st1"
        using it Cons Continue by simp
      from Suc.IH [OF p]
      have le2: "fst (optimal st') \<le> fst (optimal st1)"
        and all2: "\<forall>p \<in> set (popped E d0 rvs crvs rv_mode optimal_b n st1). \<forall>dp.
           add_partition d0 p = Inr dp \<longrightarrow> ?feas dp \<longrightarrow> fst (optimal st') \<le> ?H dp"
        and src2: "optimal st' = optimal st1
         \<or> (\<exists>p \<in> set (popped E d0 rvs crvs rv_mode optimal_b n st1). \<exists>dp.
               add_partition d0 p = Inr dp \<and> ?feas dp \<and> optimal st' = (?H dp, dp))"
        by blast+
      have a: "fst (optimal st') \<le> fst (optimal st)" using le1 le2 by simp
      have b: "\<forall>p \<in> set (part # popped E d0 rvs crvs rv_mode optimal_b n st1). \<forall>dp.
           add_partition d0 p = Inr dp \<longrightarrow> ?feas dp \<longrightarrow> fst (optimal st') \<le> ?H dp"
      proof (intro ballI allI impI)
        fix p dp assume p: "p \<in> set (part # popped E d0 rvs crvs rv_mode optimal_b n st1)"
          and ap: "add_partition d0 p = Inr dp" and f: "?feas dp"
        show "fst (optimal st') \<le> ?H dp"
        proof (cases "p = part")
          case True
          with ap dq have "dp = dq" by simp
          with f part1 le2 show ?thesis by simp
        next
          case False
          with p all2 ap f show ?thesis by simp
        qed
      qed
      have c: "optimal st' = optimal st
         \<or> (\<exists>p \<in> set (part # popped E d0 rvs crvs rv_mode optimal_b n st1). \<exists>dp.
               add_partition d0 p = Inr dp \<and> ?feas dp \<and> optimal st' = (?H dp, dp))"
        using src1 src2 dq by auto
      show ?thesis unfolding pop using a b c by blast
    qed
  qed
qed

lemma frozenset_ok_E_ex: "frozenset_ok E_ex"
  by (simp add: frozenset_ok_def E_ex_def)

section \<open>No partition is evaluated twice\<close>

text \<open>
  Claim C6. In a run of the search, which starts from the queue that holds the finest
  partition and from the empty visited set, the partitions popped and evaluated are
  pairwise different as sets of blocks, whatever the number of passes.
\<close>

theorem no_partition_popped_twice:
  assumes "frozenset_ok E"
  shows "distinct (map fset_of_list
           (popped E d0 rvs crvs rv_mode optimal_b n
              \<lparr>queue = [frozenset E (map (\<lambda>x. {|x|}) (outcomes d0))],
               checked = {||}, optimal = opt\<rparr>))"
  using popped_distinct [OF assms finest_inv [OF assms]] by blast

theorem no_partition_popped_twice_witness:
  "frozenset_ok E_ex
   \<and> distinct (map fset_of_list
        (popped E_ex d4 [[Index 0], [Index 1]] [] (Some Indices) 0 20
           \<lparr>queue = [frozenset E_ex (map (\<lambda>x. {|x|}) (outcomes d4))],
            checked = {||}, optimal = (2, [])\<rparr>))
   \<and> length (popped E_ex d4 [[Index 0], [Index 1]] [] (Some Indices) 0 20
           \<lparr>queue = [frozenset E_ex (map (\<lambda>x. {|x|}) (outcomes d4))],
            checked = {||}, optimal = (2, [])\<rparr>) = 15"
proof -
  have "length (popped E_ex d4 [[Index 0], [Index 1]] [] (Some Indices) 0 20
           \<lparr>queue = [frozenset E_ex (map (\<lambda>x. {|x|}) (outcomes d4))],
            checked = {||}, optimal = (2, [])\<rparr>) = 15"
    by code_simp
  then show ?thesis
    using no_partition_popped_twice [OF frozenset_ok_E_ex, of d4 "[[Index 0], [Index 1]]" "[]"
        "Some Indices" 0 20 "(2, [])"] frozenset_ok_E_ex
    by simp
qed

section \<open>Termination\<close>

text \<open>
  Claim C4. When \<open>normalize_rvs\<close> accepts the arguments, the loop, started from the queue
  that holds the finest partition, the empty visited set and the finest partition's
  distribution as first candidate, returns after finitely many passes, either through
  the early exit or on an empty queue, and \<open>functional_markov_chain\<close> returns the
  candidate of the final state. That candidate is the best one found: it is the first
  candidate or the distribution of a feasible partition that was popped, and its
  entropy is at most that of the first candidate and of every feasible partition that
  was popped.
\<close>

theorem functional_markov_chain_returns:
  assumes ok: "frozenset_ok E"
    and norm: "normalize_rvs E d rvs0 crvs0 rv_mode0 = Inr (rvs, crvs, rv_mode)"
  shows "\<exists>initial n c st.
           add_partition d (frozenset E (map (\<lambda>x. {|x|}) (outcomes d))) = Inr initial
         \<and> passes E d rvs crvs rv_mode (dual_total_correlation E d rvs crvs rv_mode) n
              \<lparr>queue = [frozenset E (map (\<lambda>x. {|x|}) (outcomes d))], checked = {||},
               optimal = (entropy E initial [Index (outcome_length d)] rv_mode, initial)\<rparr>
             = Inr (c, st)
         \<and> (c = Break \<or> queue st = [])
         \<and> while_queue E d rvs crvs rv_mode (dual_total_correlation E d rvs crvs rv_mode)
              \<lparr>queue = [frozenset E (map (\<lambda>x. {|x|}) (outcomes d))], checked = {||},
               optimal = (entropy E initial [Index (outcome_length d)] rv_mode, initial)\<rparr>
             = Some (Inr st)
         \<and> functional_markov_chain E d rvs0 crvs0 rv_mode0 = Some (Inr (snd (optimal st)))
         \<and> fst (optimal st) \<le> entropy E initial [Index (outcome_length d)] rv_mode
         \<and> (\<forall>p \<in> set (popped E d rvs crvs rv_mode (dual_total_correlation E d rvs crvs rv_mode) n
                \<lparr>queue = [frozenset E (map (\<lambda>x. {|x|}) (outcomes d))], checked = {||},
                 optimal = (entropy E initial [Index (outcome_length d)] rv_mode, initial)\<rparr>).
              \<forall>dp. add_partition d p = Inr dp \<longrightarrow>
                close E (dual_total_correlation E dp rvs (crvs @ [Index (outcome_length d)]) rv_mode) 0 \<longrightarrow>
                fst (optimal st) \<le> entropy E dp [Index (outcome_length d)] rv_mode)
         \<and> (optimal st = (entropy E initial [Index (outcome_length d)] rv_mode, initial)
             \<or> (\<exists>p \<in> set (popped E d rvs crvs rv_mode (dual_total_correlation E d rvs crvs rv_mode) n
                   \<lparr>queue = [frozenset E (map (\<lambda>x. {|x|}) (outcomes d))], checked = {||},
                    optimal = (entropy E initial [Index (outcome_length d)] rv_mode, initial)\<rparr>).
                 \<exists>dp. add_partition d p = Inr dp
                   \<and> close E (dual_total_correlation E dp rvs (crvs @ [Index (outcome_length d)]) rv_mode) 0
                   \<and> optimal st = (entropy E dp [Index (outcome_length d)] rv_mode, dp)))"
proof -
  let ?part = "frozenset E (map (\<lambda>x. {|x|}) (outcomes d))"
  let ?W = "[Index (outcome_length d)]"
  let ?ob = "dual_total_correlation E d rvs crvs rv_mode"
  have inv: "\<And>opt. search_inv d \<lparr>queue = [?part], checked = {||}, optimal = opt\<rparr>"
    by (rule finest_inv [OF ok])
  then have "covers d ?part" by (simp add: search_inv_def)
  then have "\<forall>x \<in> set (outcomes d). \<exists>b \<in> set ?part. x |\<in>| b" by (simp add: covers_def)
  from add_partition_covered [OF this] obtain initial where
    ini: "add_partition d ?part = Inr initial" by blast
  let ?st0 = "\<lparr>queue = [?part], checked = {||}, optimal = (entropy E initial ?W rv_mode, initial)\<rparr>"
  from while_queue_passes [OF ok inv] obtain n c st where
    p: "passes E d rvs crvs rv_mode ?ob n ?st0 = Inr (c, st)"
    and e: "c = Break \<or> queue st = []"
    and w: "while_queue E d rvs crvs rv_mode ?ob ?st0 = Some (Inr st)" by blast
  have f: "functional_markov_chain E d rvs0 crvs0 rv_mode0 = Some (Inr (snd (optimal st)))"
    by (simp add: functional_markov_chain_def norm Let_def modify_outcomes_tuple ini w)
  from passes_best [OF p]
  have b1: "fst (optimal st) \<le> entropy E initial ?W rv_mode"
    and b2: "\<forall>p \<in> set (popped E d rvs crvs rv_mode ?ob n ?st0).
              \<forall>dp. add_partition d p = Inr dp \<longrightarrow>
                close E (dual_total_correlation E dp rvs (crvs @ ?W) rv_mode) 0 \<longrightarrow>
                fst (optimal st) \<le> entropy E dp ?W rv_mode"
    and b3: "optimal st = (entropy E initial ?W rv_mode, initial)
             \<or> (\<exists>p \<in> set (popped E d rvs crvs rv_mode ?ob n ?st0).
                 \<exists>dp. add_partition d p = Inr dp
                   \<and> close E (dual_total_correlation E dp rvs (crvs @ ?W) rv_mode) 0
                   \<and> optimal st = (entropy E dp ?W rv_mode, dp))"
    by simp_all
  show ?thesis
    apply (rule exI [of _ initial])
    apply (rule exI [of _ n])
    apply (rule exI [of _ c])
    apply (rule exI [of _ st])
    apply (intro conjI)
    apply (rule ini)
    apply (rule p)
    apply (rule e)
    apply (rule w)
    apply (rule f)
    apply (rule b1)
    apply (rule b2)
    apply (rule b3)
    done
qed

theorem functional_markov_chain_returns_witness:
  "frozenset_ok E_ex
   \<and> normalize_rvs E_ex d4 None None None = Inr ([[Index 0], [Index 1]], [], Some Indices)
   \<and> functional_markov_chain E_ex d4 None None None
       = Some (Inr [([IntV 0, IntV 0, IntV 2], 1 / 4), ([IntV 0, IntV 1, IntV 2], 1 / 4),
                    ([IntV 1, IntV 0, IntV 0], 1 / 4), ([IntV 1, IntV 1, IntV 1], 1 / 4)])
   \<and> (\<exists>initial n c st.
           add_partition d4 (frozenset E_ex (map (\<lambda>x. {|x|}) (outcomes d4))) = Inr initial
         \<and> passes E_ex d4 [[Index 0], [Index 1]] [] (Some Indices)
              (dual_total_correlation E_ex d4 [[Index 0], [Index 1]] [] (Some Indices)) n
              \<lparr>queue = [frozenset E_ex (map (\<lambda>x. {|x|}) (outcomes d4))], checked = {||},
               optimal = (entropy E_ex initial [Index (outcome_length d4)] (Some Indices), initial)\<rparr>
             = Inr (c, st)
         \<and> (c = Break \<or> queue st = [])
         \<and> functional_markov_chain E_ex d4 None None None = Some (Inr (snd (optimal st))))"
proof -
  have n: "normalize_rvs E_ex d4 None None None = Inr ([[Index 0], [Index 1]], [], Some Indices)"
    by code_simp
  have v: "functional_markov_chain E_ex d4 None None None
       = Some (Inr [([IntV 0, IntV 0, IntV 2], 1 / 4), ([IntV 0, IntV 1, IntV 2], 1 / 4),
                    ([IntV 1, IntV 0, IntV 0], 1 / 4), ([IntV 1, IntV 1, IntV 1], 1 / 4)])"
    by code_simp
  from functional_markov_chain_returns [OF frozenset_ok_E_ex n]
  have "\<exists>initial n c st.
           add_partition d4 (frozenset E_ex (map (\<lambda>x. {|x|}) (outcomes d4))) = Inr initial
         \<and> passes E_ex d4 [[Index 0], [Index 1]] [] (Some Indices)
              (dual_total_correlation E_ex d4 [[Index 0], [Index 1]] [] (Some Indices)) n
              \<lparr>queue = [frozenset E_ex (map (\<lambda>x. {|x|}) (outcomes d4))], checked = {||},
               optimal = (entropy E_ex initial [Index (outcome_length d4)] (Some Indices), initial)\<rparr>
             = Inr (c, st)
         \<and> (c = Break \<or> queue st = [])
         \<and> functional_markov_chain E_ex d4 None None None = Some (Inr (snd (optimal st)))"
    by blast
  with frozenset_ok_E_ex n v show ?thesis by blast
qed

section \<open>Feasibility of the result\<close>













end
